theory Spec2Isabelle
  imports Main "HOL-Library.Word" "HOL-Library.Signed_Division"
begin

unbundle bit_operations_syntax

section \<open>Machine integers of the Go program\<close>

text \<open>
  The library is written with Go's \<^verbatim>\<open>int\<close>, a signed machine integer: 64 bits on the
  usual platforms (amd64, arm64), which is what is modelled here.  Addition, subtraction and
  multiplication wrap around, comparisons are signed, and \<^verbatim>\<open>/\<close> and \<^verbatim>\<open>%\<close> truncate
  towards zero.  A \<^verbatim>\<open>byte\<close> is an unsigned 8-bit integer.
\<close>

type_synonym go_int = "64 word"
type_synonym byte = "8 word"

definition go_div :: "go_int \<Rightarrow> go_int \<Rightarrow> go_int" where
  "go_div a b = word_of_int (sint a sdiv sint b)"

definition go_mod :: "go_int \<Rightarrow> go_int \<Rightarrow> go_int" where
  "go_mod a b = word_of_int (sint a smod sint b)"

text \<open>
  Slices.  An index expression \<^verbatim>\<open>s[i]\<close> panics unless \<open>0 \<le> i < len(s)\<close>;
  \<^verbatim>\<open>make([]byte, n)\<close> panics when \<open>n\<close> is negative or exceeds what the runtime can
  allocate (\<^verbatim>\<open>maxAlloc\<close>, \<open>2^48\<close> bytes on 64-bit platforms), and otherwise returns
  \<open>n\<close> zero bytes.  A panic is the value \<open>None\<close>.
\<close>

definition maxAlloc :: int where
  "maxAlloc = 2 ^ 48"

definition index :: "'a list \<Rightarrow> go_int \<Rightarrow> 'a option" where
  "index s i = (if 0 \<le>s i \<and> nat (sint i) < length s then Some (s ! nat (sint i)) else None)"

definition make_bytes :: "go_int \<Rightarrow> byte list option" where
  "make_bytes n =
     (if n <s 0 \<or> maxAlloc < sint n then None else Some (replicate (nat (sint n)) 0))"

section \<open>The entropy source\<close>

text \<open>
  \<^verbatim>\<open>crypto/rand.Read(b)\<close> either fills the whole of \<open>b\<close> or returns an error.  The source
  is a parameter of the model: an infinite stream of bytes, a predicate telling which calls
  fail, and two counters (calls made, bytes handed out) that the calls advance.
\<close>

record entropy =
  stream :: "nat \<Rightarrow> byte"
  failing :: "nat \<Rightarrow> bool"
  reads :: nat
  taken :: nat

definition rand_Read :: "entropy \<Rightarrow> nat \<Rightarrow> byte list option \<times> entropy" where
  "rand_Read e n =
     (if failing e (reads e) then (None, e\<lparr>reads := Suc (reads e)\<rparr>)
      else (Some (map (stream e) [taken e ..< taken e + n]),
            e\<lparr>reads := Suc (reads e), taken := taken e + n\<rparr>))"

section \<open>The pixel grid\<close>

record Avatar =
  Width :: go_int
  Height :: go_int
  Pixels :: "byte list"

datatype error = InvalidDimensions | RandomSourceError

text \<open>What a call does: return a value, return an error, or panic.\<close>

datatype 'a go_result = Ok 'a | Error error | Panicked

definition GenerateAvatar :: "go_int \<Rightarrow> go_int \<Rightarrow> entropy \<Rightarrow> Avatar go_result \<times> entropy" where
  "GenerateAvatar width height e =
     (if width \<le>s 0 \<or> height \<le>s 0 then (Error InvalidDimensions, e)
      else
        let bits = width * height;
            bytesLen = go_div (bits + 7) 8
        in case make_bytes bytesLen of
             None \<Rightarrow> (Panicked, e)
           | Some pixels \<Rightarrow>
               (case rand_Read e (length pixels) of
                  (None, e') \<Rightarrow> (Error RandomSourceError, e')
                | (Some pixels', e') \<Rightarrow>
                    (Ok \<lparr>Width = width, Height = height, Pixels = pixels'\<rparr>, e')))"

definition GetPixel :: "Avatar \<Rightarrow> go_int \<Rightarrow> go_int \<Rightarrow> bool option" where
  "GetPixel a x y =
     (if x <s 0 \<or> Width a \<le>s x \<or> y <s 0 \<or> Height a \<le>s y then Some False
      else
        let idx = y * Width a + x;
            byteIdx = go_div idx 8;
            bitIdx = go_mod idx 8
        in case index (Pixels a) byteIdx of
             None \<Rightarrow> None
           | Some b \<Rightarrow> Some (b AND push_bit (unat bitIdx) 1 \<noteq> 0))"

definition SetPixel :: "Avatar \<Rightarrow> go_int \<Rightarrow> go_int \<Rightarrow> bool \<Rightarrow> Avatar option" where
  "SetPixel a x y val =
     (if x <s 0 \<or> Width a \<le>s x \<or> y <s 0 \<or> Height a \<le>s y then Some a
      else
        let idx = y * Width a + x;
            byteIdx = go_div idx 8;
            bitIdx = go_mod idx 8
        in case index (Pixels a) byteIdx of
             None \<Rightarrow> None
           | Some b \<Rightarrow>
               Some (a\<lparr>Pixels := (Pixels a)[nat (sint byteIdx) :=
                        (if val then b OR push_bit (unat bitIdx) 1
                         else b AND NOT (push_bit (unat bitIdx) 1))]\<rparr>))"

text \<open>
  The two loops of \<^verbatim>\<open>GenerateSymmetric\<close>: \<open>fill_row\<close> is the inner loop over \<open>x\<close>
  from its current value up to \<open>halfWidth\<close>, \<open>fill_rows\<close> the outer loop over \<open>y\<close>.
\<close>

function fill_row ::
  "go_int \<Rightarrow> go_int \<Rightarrow> go_int \<Rightarrow> go_int \<Rightarrow> Avatar \<Rightarrow> entropy \<Rightarrow> Avatar go_result \<times> entropy" where
  "fill_row width halfWidth y x a e =
     (if x <s halfWidth then
        (case rand_Read e 1 of
           (None, e') \<Rightarrow> (Error RandomSourceError, e')
         | (Some b, e') \<Rightarrow>
             let val = (b ! 0 AND 1 = 1) in
             (case SetPixel a x y val of
                None \<Rightarrow> (Panicked, e')
              | Some a1 \<Rightarrow>
                  let mirrorX = width - 1 - x in
                  if mirrorX \<noteq> x then
                    (case SetPixel a1 mirrorX y val of
                       None \<Rightarrow> (Panicked, e')
                     | Some a2 \<Rightarrow> fill_row width halfWidth y (x + 1) a2 e')
                  else fill_row width halfWidth y (x + 1) a1 e'))
      else (Ok a, e))"
  by pat_completeness auto

lemma sint_succ_less:
  fixes x :: go_int
  assumes "x <s b"
  shows "sint (x + 1) = sint x + 1"
proof -
  have "sint x < sint b" using assms by (simp add: word_sless_alt)
  moreover have "sint b < 2 ^ 63" using sint_lt [of b] by simp
  moreover have "- (2 ^ 63) \<le> sint x" using sint_ge [of x] by simp
  ultimately have "signed_take_bit 63 (sint x + 1) = sint x + 1"
    by (intro signed_take_bit_int_eq_self) auto
  then show ?thesis by (simp add: sint_word_ariths)
qed

termination fill_row
  by (relation "measure (\<lambda>(width, halfWidth, y, x, a, e). nat (sint halfWidth - sint x))")
     (auto simp: sint_succ_less word_sless_alt)

declare fill_row.simps [simp del]

function fill_rows ::
  "go_int \<Rightarrow> go_int \<Rightarrow> go_int \<Rightarrow> go_int \<Rightarrow> Avatar \<Rightarrow> entropy \<Rightarrow> Avatar go_result \<times> entropy" where
  "fill_rows width height halfWidth y a e =
     (if y <s height then
        (case fill_row width halfWidth y 0 a e of
           (Ok a', e') \<Rightarrow> fill_rows width height halfWidth (y + 1) a' e'
         | (Error err, e') \<Rightarrow> (Error err, e')
         | (Panicked, e') \<Rightarrow> (Panicked, e'))
      else (Ok a, e))"
  by pat_completeness auto

termination fill_rows
  by (relation "measure (\<lambda>(width, height, halfWidth, y, a, e). nat (sint height - sint y))")
     (auto simp: sint_succ_less word_sless_alt)

declare fill_rows.simps [simp del]

definition GenerateSymmetric :: "go_int \<Rightarrow> go_int \<Rightarrow> entropy \<Rightarrow> Avatar go_result \<times> entropy" where
  "GenerateSymmetric width height e =
     (if width \<le>s 0 \<or> height \<le>s 0 then (Error InvalidDimensions, e)
      else
        case make_bytes (go_div (width * height + 7) 8) of
          None \<Rightarrow> (Panicked, e)
        | Some pixels \<Rightarrow>
            let a = \<lparr>Width = width, Height = height, Pixels = pixels\<rparr>;
                halfWidth = go_div (width + 1) 2
            in fill_rows width height halfWidth 0 a e)"

section \<open>Keyed avatars\<close>

record KeyAvatar =
  Key :: string
  Avatar :: Avatar

definition GenerateKeyAvatar ::
  "string \<Rightarrow> go_int \<Rightarrow> go_int \<Rightarrow> string \<Rightarrow> entropy \<Rightarrow> KeyAvatar go_result \<times> entropy" where
  "GenerateKeyAvatar key width height method e =
     (let (avatar, e') =
            (if method = ''symmetric'' then GenerateSymmetric width height e
             else if method = ''none'' \<or> method = [] then GenerateAvatar width height e
             else GenerateAvatar width height e)
      in case avatar of
           Ok a \<Rightarrow> (Ok \<lparr>Key = key, Avatar = a\<rparr>, e')
         | Error err \<Rightarrow> (Error err, e')
         | Panicked \<Rightarrow> (Panicked, e'))"

section \<open>File paths\<close>

text \<open>
  \<^verbatim>\<open>GetAvatarPath\<close> calls \<^verbatim>\<open>filepath.Join\<close> of Go's standard library, which joins its
  non-empty arguments with the separator and returns the result of \<^verbatim>\<open>Clean\<close>.  The
  library is not part of the repository; it is modelled here for Unix (separator \<open>/\<close>, no
  volume names), following the loop of \<^verbatim>\<open>Clean\<close>: \<open>p\<close> is the part of the path still to
  read, \<open>out\<close> the buffer written so far, \<open>dotdot\<close> the position in \<open>out\<close> that a
  \<^verbatim>\<open>..\<close> element may not backtrack over.
\<close>

definition Separator :: char where
  "Separator = CHR ''/''"

function backtrack :: "nat \<Rightarrow> string \<Rightarrow> nat \<Rightarrow> nat" where
  "backtrack dotdot out w =
     (if dotdot < w \<and> out ! w \<noteq> Separator then backtrack dotdot out (w - 1) else w)"
  by pat_completeness auto
termination
  by (relation "measure (\<lambda>(dotdot, out, w). w)") auto

declare backtrack.simps [simp del]

text \<open>A real path element is preceded by a separator unless it is the first one.\<close>

definition add_separator :: "bool \<Rightarrow> string \<Rightarrow> string" where
  "add_separator rooted out =
     (if rooted \<and> length out \<noteq> 1 \<or> \<not> rooted \<and> length out \<noteq> 0
      then out @ [Separator] else out)"

text \<open>A \<^verbatim>\<open>..\<close> that cannot backtrack is kept, in a path that is not rooted.\<close>

definition append_dotdot :: "string \<Rightarrow> string" where
  "append_dotdot out = (if 0 < length out then out @ [Separator] else out) @ ''..''"

function Clean_loop :: "bool \<Rightarrow> nat \<Rightarrow> string \<Rightarrow> string \<Rightarrow> string" where
  "Clean_loop rooted dotdot out [] = out"
| "Clean_loop rooted dotdot out (c # r) =
     (if c = Separator then Clean_loop rooted dotdot out r
      else if c = CHR ''.'' \<and> (r = [] \<or> hd r = Separator) then Clean_loop rooted dotdot out r
      else if c = CHR ''.'' \<and> hd r = CHR ''.'' \<and> (tl r = [] \<or> hd (tl r) = Separator) then
        (if dotdot < length out then
           Clean_loop rooted dotdot (take (backtrack dotdot out (length out - 1)) out) (tl r)
         else if \<not> rooted then
           Clean_loop rooted (length (append_dotdot out)) (append_dotdot out) (tl r)
         else Clean_loop rooted dotdot out (tl r))
      else
        Clean_loop rooted dotdot
          (add_separator rooted out @ takeWhile (\<lambda>d. d \<noteq> Separator) (c # r))
          (dropWhile (\<lambda>d. d \<noteq> Separator) (c # r)))"
  by pat_completeness auto
termination
proof (relation "measure (\<lambda>(rooted, dotdot, out, p). length p)", goal_cases)
  case (7 rooted dotdot out c r)
  have "length (dropWhile (\<lambda>d. d \<noteq> Separator) r) \<le> length r"
    by (rule length_dropWhile_le)
  with 7 show ?case by simp
qed (auto simp add: less_Suc_eq_le)

definition Clean :: "string \<Rightarrow> string" where
  "Clean path =
     (if path = [] then ''.''
      else
        let rooted = (hd path = Separator);
            out = (if rooted then Clean_loop True 1 [Separator] (tl path)
                   else Clean_loop False 0 [] path)
        in if out = [] then ''.'' else out)"

fun strings_Join :: "string list \<Rightarrow> string \<Rightarrow> string" where
  "strings_Join [] sep = []"
| "strings_Join [e] sep = e"
| "strings_Join (e # es) sep = e @ sep @ strings_Join es sep"

fun Join :: "string list \<Rightarrow> string" where
  "Join [] = []"
| "Join (e # es) = (if e \<noteq> [] then Clean (strings_Join (e # es) [Separator]) else Join es)"

definition GetAvatarPath :: "string \<Rightarrow> string \<Rightarrow> string" where
  "GetAvatarPath folder key = Join [folder, key @ ''.png'']"

section \<open>Vocabulary of the properties\<close>

text \<open>
  \<open>in_bounds\<close> is the negation of the guard of the accessors.  \<open>sized\<close> says that the
  buffer has \<open>\<lceil>width * height / 8\<rceil>\<close> bytes, in unbounded arithmetic, and that it is a slice
  the runtime can hold.  \<open>pix_index\<close> is the row-major index \<open>y * width + x\<close> in unbounded
  arithmetic, and \<open>buffer_bit buf k\<close> is bit \<open>k mod 8\<close>, least significant first, of byte
  \<open>k div 8\<close>.  \<open>write_bit\<close> sets or clears that bit.
\<close>

definition in_bounds :: "Avatar \<Rightarrow> go_int \<Rightarrow> go_int \<Rightarrow> bool" where
  "in_bounds a x y \<longleftrightarrow> 0 \<le>s x \<and> x <s Width a \<and> 0 \<le>s y \<and> y <s Height a"

definition sized :: "Avatar \<Rightarrow> bool" where
  "sized a \<longleftrightarrow>
     int (length (Pixels a)) = (sint (Width a) * sint (Height a) + 7) div 8 \<and>
     int (length (Pixels a)) \<le> maxAlloc"

definition pix_index :: "Avatar \<Rightarrow> go_int \<Rightarrow> go_int \<Rightarrow> nat" where
  "pix_index a x y = nat (sint y * sint (Width a) + sint x)"

definition buffer_bit :: "byte list \<Rightarrow> nat \<Rightarrow> bool" where
  "buffer_bit buf k = bit (buf ! (k div 8)) (k mod 8)"

definition write_bit :: "byte list \<Rightarrow> nat \<Rightarrow> bool \<Rightarrow> byte list" where
  "write_bit buf k v =
     buf[k div 8 := (if v then buf ! (k div 8) OR push_bit (k mod 8) 1
                     else buf ! (k div 8) AND NOT (push_bit (k mod 8) 1))]"

text \<open>
  The left-half column whose random bit a pixel of column \<open>c\<close> shows after a mirrored
  fill, and the state after the inner loop has run from column \<open>x\<close> of row \<open>y\<close>, and after
  the outer loop has run from row \<open>y\<close>: the entropy source has been read once per left-half
  pixel, and each pixel shows the low bit of the byte read for its source column.
\<close>

definition source_column :: "go_int \<Rightarrow> go_int \<Rightarrow> int" where
  "source_column width c = min (sint c) (sint width - 1 - sint c)"

definition row_filled ::
  "go_int \<Rightarrow> go_int \<Rightarrow> go_int \<Rightarrow> go_int \<Rightarrow> Avatar \<Rightarrow> entropy \<Rightarrow> Avatar \<Rightarrow> entropy \<Rightarrow> bool"
  where
  "row_filled w hw y x a e a' e' \<longleftrightarrow>
     sized a' \<and> Width a' = w \<and> Height a' = Height a \<and>
     stream e' = stream e \<and> failing e' = failing e \<and>
     int (reads e') = int (reads e) + (sint hw - sint x) \<and>
     int (taken e') = int (taken e) + (sint hw - sint x) \<and>
     (\<forall>c r. in_bounds a c r \<longrightarrow>
        GetPixel a' c r =
          (if r = y \<and> sint x \<le> source_column w c
           then Some (stream e (taken e + nat (source_column w c - sint x)) AND 1 = 1)
           else GetPixel a c r))"

definition rows_filled ::
  "go_int \<Rightarrow> go_int \<Rightarrow> go_int \<Rightarrow> go_int \<Rightarrow> Avatar \<Rightarrow> entropy \<Rightarrow> Avatar \<Rightarrow> entropy \<Rightarrow> bool"
  where
  "rows_filled w h hw y a e a' e' \<longleftrightarrow>
     sized a' \<and> Width a' = w \<and> Height a' = h \<and>
     stream e' = stream e \<and> failing e' = failing e \<and>
     int (reads e') = int (reads e) + (sint h - sint y) * sint hw \<and>
     int (taken e') = int (taken e) + (sint h - sint y) * sint hw \<and>
     (\<forall>c r. in_bounds a c r \<longrightarrow>
        GetPixel a' c r =
          (if sint y \<le> sint r
           then Some (stream e (taken e +
                   nat ((sint r - sint y) * sint hw + source_column w c)) AND 1 = 1)
           else GetPixel a c r))"

text \<open>A path element that \<^verbatim>\<open>Clean\<close> copies as it is.\<close>

definition plain_name :: "string \<Rightarrow> bool" where
  "plain_name name \<longleftrightarrow>
     name \<noteq> [] \<and> name \<noteq> ''.'' \<and> name \<noteq> ''..'' \<and> Separator \<notin> set name"

text \<open>Concrete values on which the theorems below are instantiated.\<close>

definition MaxInt64 :: go_int where
  "MaxInt64 = 9223372036854775807"

definition zero_source :: entropy where
  "zero_source = \<lparr>stream = (\<lambda>n. 0), failing = (\<lambda>n. False), reads = 0, taken = 0\<rparr>"

definition blank2x2 :: Avatar where
  "blank2x2 = \<lparr>Width = 2, Height = 2, Pixels = [0]\<rparr>"

section \<open>Arithmetic of indices without wrap-around\<close>

lemma sint_in_range:
  fixes k :: int
  assumes "0 \<le> k" "k < 2 ^ 63"
  shows "sint (word_of_int k :: go_int) = k"
  using assms by (simp add: sint_sbintrunc' signed_take_bit_int_eq_self)

lemma sint_row_major:
  fixes x y W :: go_int
  assumes "0 \<le> sint y" "0 \<le> sint x" "0 \<le> sint W"
    and "sint y * sint W + sint x < 2 ^ 63"
  shows "sint (y * W + x) = sint y * sint W + sint x"
proof -
  have nn: "0 \<le> sint y * sint W" using assms by simp
  then have "sint y * sint W < 2 ^ 63" using assms by linarith
  with nn have "signed_take_bit 63 (sint y * sint W) = sint y * sint W"
    by (intro signed_take_bit_int_eq_self) auto
  then have m: "sint (y * W) = sint y * sint W" by (simp add: sint_word_ariths)
  have "signed_take_bit 63 (sint y * sint W + sint x) = sint y * sint W + sint x"
    using nn assms by (intro signed_take_bit_int_eq_self) linarith+
  with m show ?thesis by (simp add: sint_word_ariths)
qed

lemma sint_go_div:
  fixes a :: go_int
  assumes "0 \<le> sint a"
  shows "sint (go_div a 8) = sint a div 8"
proof -
  have "sint a < 2 ^ 63" using sint_lt [of a] by simp
  then have "sint a div 8 < 2 ^ 63" using assms by linarith
  moreover have "0 \<le> sint a div 8" using assms by simp
  ultimately have "sint (word_of_int (sint a div 8) :: go_int) = sint a div 8"
    by (rule sint_in_range [rotated])
  moreover have "sint a sdiv 8 = sint a div 8"
    using assms by (simp add: signed_divide_int_def sgn_if)
  ultimately show ?thesis by (simp add: go_div_def)
qed

lemma unat_go_mod:
  fixes a :: go_int
  assumes "0 \<le> sint a"
  shows "unat (go_mod a 8) = nat (sint a mod 8)"
proof -
  have "sint a smod 8 = sint a mod 8"
    using assms by (simp add: signed_modulo_int_def sgn_if)
  moreover have "unat (word_of_int (sint a mod 8) :: go_int) = nat (sint a mod 8)"
    by (simp add: unat_eq_nat_uint uint_word_of_int take_bit_int_eq_self)
  ultimately show ?thesis by (simp add: go_mod_def)
qed

section \<open>The accessors inside the grid\<close>

lemma buffer_bit_write_bit:
  assumes "k < 8 * length buf"
  shows "buffer_bit (write_bit buf k v) j = (if j = k then v else buffer_bit buf j)"
proof (cases "j div 8 = k div 8")
  case True
  have kd: "k div 8 < length buf" using assms by simp
  have m: "k mod 8 < 8" by simp
  have "j = k \<longleftrightarrow> j mod 8 = k mod 8"
    using True by (metis div_mult_mod_eq)
  then show ?thesis
    using True kd m
    by (auto simp add: buffer_bit_def write_bit_def bit_simps)
next
  case False
  then have "j \<noteq> k" by auto
  with False show ?thesis
    by (simp add: buffer_bit_def write_bit_def)
qed

lemma in_bounds_index:
  assumes s: "sized a" and b: "in_bounds a x y"
  shows "0 \<le> sint y * sint (Width a) + sint x"
    and "sint y * sint (Width a) + sint x < sint (Width a) * sint (Height a)"
    and "sint (Width a) * sint (Height a) \<le> 8 * maxAlloc"
    and "pix_index a x y < 8 * length (Pixels a)"
proof -
  let ?W = "sint (Width a)" and ?H = "sint (Height a)"
  from b have x: "0 \<le> sint x" "sint x < ?W" and y: "0 \<le> sint y" "sint y < ?H"
    by (simp_all add: in_bounds_def word_sle_eq word_sless_alt)
  show nn: "0 \<le> sint y * ?W + sint x" using x y by simp
  have "sint y + 1 \<le> ?H" using y by simp
  then have "(sint y + 1) * ?W \<le> ?H * ?W"
    using x by (intro mult_right_mono) auto
  then show lt: "sint y * ?W + sint x < ?W * ?H"
    using x by (simp add: algebra_simps)
  from s have len: "int (length (Pixels a)) = (?W * ?H + 7) div 8"
    and ma: "int (length (Pixels a)) \<le> maxAlloc" by (simp_all add: sized_def)
  show "?W * ?H \<le> 8 * maxAlloc" using len ma by linarith
  have "sint y * ?W + sint x < 8 * int (length (Pixels a))" using lt len by linarith
  then show "pix_index a x y < 8 * length (Pixels a)"
    using nn by (simp add: pix_index_def)
qed

lemma in_bounds_word_index:
  assumes s: "sized a" and b: "in_bounds a x y"
  shows "sint (go_div (y * Width a + x) 8) = int (pix_index a x y div 8)"
    and "unat (go_mod (y * Width a + x) 8) = pix_index a x y mod 8"
    and "sint (y * Width a + x) = int (pix_index a x y)"
proof -
  let ?W = "sint (Width a)" and ?H = "sint (Height a)"
  let ?i = "sint y * ?W + sint x"
  note ib = in_bounds_index [OF s b]
  from b have x: "0 \<le> sint x" "sint x < ?W" and y: "0 \<le> sint y"
    by (simp_all add: in_bounds_def word_sle_eq word_sless_alt)
  have "?i < 2 ^ 63" using ib(2,3) by (simp add: maxAlloc_def)
  then have i: "sint (y * Width a + x) = ?i"
    using x y by (intro sint_row_major) auto
  show "sint (go_div (y * Width a + x) 8) = int (pix_index a x y div 8)"
    using ib(1) i by (simp add: sint_go_div pix_index_def zdiv_int)
  show "unat (go_mod (y * Width a + x) 8) = pix_index a x y mod 8"
    using ib(1) i by (simp add: unat_go_mod pix_index_def nat_mod_distrib)
  show "sint (y * Width a + x) = int (pix_index a x y)"
    using ib(1) i by (simp add: pix_index_def)
qed

lemma test_bit_byte: "(b AND 2 ^ n \<noteq> 0) = bit b n" for b :: byte
  using bit_iff_and_push_bit_not_eq_0 [of b n] by simp

lemma GetPixel_in_bounds:
  assumes s: "sized a" and b: "in_bounds a x y"
  shows "GetPixel a x y = Some (buffer_bit (Pixels a) (pix_index a x y))"
proof -
  have g: "\<not> (x <s 0 \<or> Width a \<le>s x \<or> y <s 0 \<or> Height a \<le>s y)"
    using b by (auto simp add: in_bounds_def word_sle_eq word_sless_alt)
  have d: "pix_index a x y div 8 < length (Pixels a)"
    using in_bounds_index(4) [OF s b] by simp
  show ?thesis
    using g d in_bounds_word_index [OF s b]
    by (simp add: GetPixel_def index_def word_sle_eq buffer_bit_def test_bit_byte)
qed

lemma SetPixel_in_bounds:
  assumes s: "sized a" and b: "in_bounds a x y"
  shows "SetPixel a x y v = Some (a\<lparr>Pixels := write_bit (Pixels a) (pix_index a x y) v\<rparr>)"
proof -
  have g: "\<not> (x <s 0 \<or> Width a \<le>s x \<or> y <s 0 \<or> Height a \<le>s y)"
    using b by (auto simp add: in_bounds_def word_sle_eq word_sless_alt)
  have d: "pix_index a x y div 8 < length (Pixels a)"
    using in_bounds_index(4) [OF s b] by simp
  show ?thesis
    using g d in_bounds_word_index [OF s b]
    by (simp add: SetPixel_def index_def word_sle_eq write_bit_def)
qed

lemma pix_index_inj:
  assumes s: "sized a" and b: "in_bounds a x y" and b': "in_bounds a c r"
    and eq: "pix_index a c r = pix_index a x y"
  shows "c = x \<and> r = y"
proof -
  let ?W = "sint (Width a)"
  from b have x: "0 \<le> sint x" "sint x < ?W" and y: "0 \<le> sint y"
    by (simp_all add: in_bounds_def word_sle_eq word_sless_alt)
  from b' have c: "0 \<le> sint c" "sint c < ?W" and r: "0 \<le> sint r"
    by (simp_all add: in_bounds_def word_sle_eq word_sless_alt)
  have e: "sint r * ?W + sint c = sint y * ?W + sint x"
    using eq in_bounds_index(1) [OF s b] in_bounds_index(1) [OF s b']
    by (simp add: pix_index_def)
  have "(sint r * ?W + sint c) div ?W = sint r" using c by simp
  moreover have "(sint y * ?W + sint x) div ?W = sint y" using x by simp
  ultimately have ry: "sint r = sint y" using e by simp
  with e have "sint c = sint x" by simp
  with ry show ?thesis by (simp add: signed_word_eqI)
qed

lemma SetPixel_sized:
  assumes "SetPixel a x y v = Some a'"
  shows "Width a' = Width a" "Height a' = Height a" "length (Pixels a') = length (Pixels a)"
    "sized a' = sized a" "in_bounds a' c r = in_bounds a c r"
  using assms
  by (auto simp add: SetPixel_def Let_def sized_def in_bounds_def split: if_splits option.splits)

lemma SetPixel_GetPixel:
  assumes s: "sized a" and b: "in_bounds a x y" and b': "in_bounds a c r"
    and sp: "SetPixel a x y v = Some a'"
  shows "GetPixel a' c r = (if c = x \<and> r = y then Some v else GetPixel a c r)"
proof -
  have a': "a' = a\<lparr>Pixels := write_bit (Pixels a) (pix_index a x y) v\<rparr>"
    using sp SetPixel_in_bounds [OF s b] by simp
  have s': "sized a'" and bb: "in_bounds a' c r"
    using SetPixel_sized(4,5) [OF sp] s b' by simp_all
  have pi: "pix_index a' c r = pix_index a c r" by (simp add: a' pix_index_def)
  have "GetPixel a' c r = Some (buffer_bit (Pixels a') (pix_index a c r))"
    using GetPixel_in_bounds [OF s' bb] pi by simp
  also have "\<dots> = Some (if pix_index a c r = pix_index a x y then v
                        else buffer_bit (Pixels a) (pix_index a c r))"
    using in_bounds_index(4) [OF s b] by (simp add: a' buffer_bit_write_bit)
  also have "\<dots> = (if c = x \<and> r = y then Some v else GetPixel a c r)"
    using pix_index_inj [OF s b b'] GetPixel_in_bounds [OF s b'] by auto
  finally show ?thesis .
qed

section \<open>Out-of-range coordinates\<close>

text \<open>
  C2.  For every avatar and every \<open>(x, y)\<close> outside \<open>[0, width) \<times> [0, height)\<close>,
  \<open>GetPixel\<close> returns false, whatever the buffer holds after earlier writes, and \<open>SetPixel\<close>
  returns with the avatar, hence every byte of its buffer, unchanged.
\<close>

theorem out_of_range_access:
  assumes "x <s 0 \<or> Width a \<le>s x \<or> y <s 0 \<or> Height a \<le>s y"
  shows "GetPixel a x y = Some False \<and> SetPixel a x y v = Some a"
  using assms by (simp add: GetPixel_def SetPixel_def)

theorem out_of_range_access_witness:
  "Width \<lparr>Width = 2, Height = 2, Pixels = [15]\<rparr> \<le>s 2 \<and>
   GetPixel \<lparr>Width = 2, Height = 2, Pixels = [15]\<rparr> 2 0 = Some False \<and>
   SetPixel \<lparr>Width = 2, Height = 2, Pixels = [15]\<rparr> 2 0 False =
     Some \<lparr>Width = 2, Height = 2, Pixels = [15]\<rparr>"
  using out_of_range_access [of 2 "\<lparr>Width = 2, Height = 2, Pixels = [15]\<rparr>" 0 False]
  by simp

section \<open>Writing a pixel and reading it back\<close>

text \<open>
  C3.  For every avatar whose buffer has \<open>\<lceil>width * height / 8\<rceil>\<close> bytes (a slice that the
  runtime can hold), every in-bounds \<open>(x, y)\<close> and every boolean \<open>v\<close>, \<open>SetPixel\<close> returns
  and a following \<open>GetPixel\<close> at \<open>(x, y)\<close> returns \<open>v\<close>.
\<close>

theorem set_then_get:
  assumes "sized a" and "in_bounds a x y"
  shows "\<exists>a'. SetPixel a x y v = Some a' \<and> GetPixel a' x y = Some v"
proof -
  obtain a' where a': "SetPixel a x y v = Some a'"
    using SetPixel_in_bounds [OF assms] by simp
  then have "GetPixel a' x y = Some v"
    using SetPixel_GetPixel [OF assms assms(2) a'] by simp
  with a' show ?thesis by simp
qed

theorem set_then_get_witness:
  "sized blank2x2 \<and> in_bounds blank2x2 1 1 \<and>
   (\<exists>a'. SetPixel blank2x2 1 1 True = Some a' \<and> GetPixel a' 1 1 = Some True)"
  using set_then_get [of blank2x2 1 1 True]
  by (simp add: sized_def in_bounds_def blank2x2_def maxAlloc_def word_sle_eq word_sless_alt)

text \<open>
  C9.  Under the same hypotheses \<open>SetPixel\<close> changes at most the bit at the row-major index
  \<open>y * width + x\<close>, which is the index the code computes: the dimensions and the length of
  the buffer stay, and every other bit of the buffer has the value it had before.
\<close>

theorem SetPixel_changes_one_bit:
  assumes "sized a" and "in_bounds a x y"
  shows "\<exists>a'. SetPixel a x y v = Some a' \<and>
           Width a' = Width a \<and> Height a' = Height a \<and>
           length (Pixels a') = length (Pixels a) \<and>
           sint (y * Width a + x) = int (pix_index a x y) \<and>
           (\<forall>k. k \<noteq> pix_index a x y \<longrightarrow>
              buffer_bit (Pixels a') k = buffer_bit (Pixels a) k)"
proof -
  let ?a' = "a\<lparr>Pixels := write_bit (Pixels a) (pix_index a x y) v\<rparr>"
  have "SetPixel a x y v = Some ?a'" by (rule SetPixel_in_bounds [OF assms])
  moreover have "length (Pixels ?a') = length (Pixels a)" by (simp add: write_bit_def)
  moreover have "buffer_bit (Pixels ?a') k = buffer_bit (Pixels a) k"
    if "k \<noteq> pix_index a x y" for k
    using that in_bounds_index(4) [OF assms] by (simp add: buffer_bit_write_bit)
  ultimately show ?thesis
    using in_bounds_word_index(3) [OF assms] by simp
qed

theorem SetPixel_changes_one_bit_witness:
  "sized blank2x2 \<and> in_bounds blank2x2 1 1 \<and>
   (\<exists>a'. SetPixel blank2x2 1 1 True = Some a' \<and> length (Pixels a') = 1 \<and>
      buffer_bit (Pixels a') 0 = buffer_bit (Pixels blank2x2) 0)"
proof -
  have s: "sized blank2x2" and b: "in_bounds blank2x2 1 1"
    by (simp_all add: sized_def in_bounds_def blank2x2_def maxAlloc_def word_sle_eq word_sless_alt)
  have "pix_index blank2x2 1 1 = 3" by (simp add: pix_index_def blank2x2_def)
  then show ?thesis
    using s b SetPixel_changes_one_bit [OF s b, of True] by (auto simp add: blank2x2_def)
qed

text \<open>
  C10.  For every avatar whose buffer has \<open>\<lceil>width * height / 8\<rceil>\<close> bytes and for all
  integers \<open>x\<close> and \<open>y\<close>, neither accessor indexes the buffer outside its bounds: they never
  panic.  When the guard lets \<open>(x, y)\<close> through, the index \<open>y * width + x\<close> that the code
  computes does not wrap, lies in \<open>[0, width * height)\<close>, and its byte index lies below the
  length of the buffer.  The signs of the width and the height need not be assumed.
\<close>

theorem accessors_stay_in_buffer:
  assumes "sized a"
  shows "GetPixel a x y \<noteq> None \<and> SetPixel a x y v \<noteq> None \<and>
         (in_bounds a x y \<longrightarrow>
            0 \<le> sint (y * Width a + x) \<and>
            sint (y * Width a + x) < sint (Width a) * sint (Height a) \<and>
            index (Pixels a) (go_div (y * Width a + x) 8) \<noteq> None)"
proof (cases "in_bounds a x y")
  case True
  note w = in_bounds_word_index [OF assms True]
  have "0 \<le> sint (y * Width a + x)" using w(3) by simp
  moreover have "sint (y * Width a + x) < sint (Width a) * sint (Height a)"
    using in_bounds_index(1,2) [OF assms True] w(3) by (simp add: pix_index_def)
  moreover have "index (Pixels a) (go_div (y * Width a + x) 8) \<noteq> None"
    using in_bounds_index(4) [OF assms True] w(1) by (simp add: index_def word_sle_eq)
  ultimately show ?thesis
    using GetPixel_in_bounds [OF assms True] SetPixel_in_bounds [OF assms True] by simp
next
  case False
  then have "x <s 0 \<or> Width a \<le>s x \<or> y <s 0 \<or> Height a \<le>s y"
    by (auto simp add: in_bounds_def word_sle_eq word_sless_alt)
  with False show ?thesis by (simp add: GetPixel_def SetPixel_def)
qed

theorem accessors_stay_in_buffer_witness:
  "sized blank2x2 \<and> in_bounds blank2x2 1 1 \<and>
   GetPixel blank2x2 1 1 \<noteq> None \<and> SetPixel blank2x2 1 1 True \<noteq> None \<and>
   index (Pixels blank2x2) (go_div (1 * Width blank2x2 + 1) 8) \<noteq> None"
proof -
  have s: "sized blank2x2" and b: "in_bounds blank2x2 1 1"
    by (simp_all add: sized_def in_bounds_def blank2x2_def maxAlloc_def word_sle_eq word_sless_alt)
  show ?thesis
    using s b accessors_stay_in_buffer [OF s, of 1 1 True] by simp
qed


section \<open>Generation: dimensions and dispatch\<close>

text \<open>
  C5.  When the width or the height is zero or negative, each of \<open>GenerateAvatar\<close>,
  \<open>GenerateSymmetric\<close> and \<open>GenerateKeyAvatar\<close> (for any key and any method) returns the
  error for invalid dimensions and no avatar; the entropy source is not read.
\<close>

theorem invalid_dimensions:
  assumes "width \<le>s 0 \<or> height \<le>s 0"
  shows "GenerateAvatar width height e = (Error InvalidDimensions, e) \<and>
         GenerateSymmetric width height e = (Error InvalidDimensions, e) \<and>
         GenerateKeyAvatar key width height method e = (Error InvalidDimensions, e)"
  using assms by (simp add: GenerateAvatar_def GenerateSymmetric_def GenerateKeyAvatar_def)

theorem invalid_dimensions_witness:
  "(-3 :: go_int) \<le>s 0 \<and>
   GenerateAvatar (-3) 5 zero_source = (Error InvalidDimensions, zero_source) \<and>
   GenerateSymmetric (-3) 5 zero_source = (Error InvalidDimensions, zero_source) \<and>
   GenerateKeyAvatar ''user123'' (-3) 5 ''symmetric'' zero_source =
     (Error InvalidDimensions, zero_source)"
proof -
  have h: "(-3 :: go_int) \<le>s 0" by (simp add: word_sle_eq)
  then have "(-3 :: go_int) \<le>s 0 \<or> (5 :: go_int) \<le>s 0" by simp
  from invalid_dimensions [OF this, of zero_source "''user123''" "''symmetric''"] h
  show ?thesis by simp
qed

text \<open>
  C7.  \<open>GenerateKeyAvatar\<close> runs the mirrored fill when the method is the string
  \<^verbatim>\<open>symmetric\<close> and the plain random fill for every other method, \<^verbatim>\<open>none\<close> and the empty
  string included; it wraps the avatar of a successful fill with the key and hands on the
  failure of a failed one as it is.
\<close>

theorem GenerateKeyAvatar_dispatch:
  "GenerateKeyAvatar key width height method e =
     (case (if method = ''symmetric'' then GenerateSymmetric width height e
            else GenerateAvatar width height e) of
        (Ok a, e') \<Rightarrow> (Ok \<lparr>Key = key, Avatar = a\<rparr>, e')
      | (Error err, e') \<Rightarrow> (Error err, e')
      | (Panicked, e') \<Rightarrow> (Panicked, e'))"
  by (simp add: GenerateKeyAvatar_def split: prod.splits)

theorem GenerateKeyAvatar_dispatch_witness:
  "GenerateKeyAvatar ''user123'' 3 2 ''symmetric'' zero_source =
     (Ok \<lparr>Key = ''user123'', Avatar = \<lparr>Width = 3, Height = 2, Pixels = [0]\<rparr>\<rparr>,
      zero_source\<lparr>reads := 4, taken := 4\<rparr>) \<and>
   GenerateKeyAvatar ''user123'' 3 2 ''none'' zero_source =
     (Ok \<lparr>Key = ''user123'', Avatar = \<lparr>Width = 3, Height = 2, Pixels = [0]\<rparr>\<rparr>,
      zero_source\<lparr>reads := 1, taken := 1\<rparr>)"
proof -
  have s: "GenerateSymmetric 3 2 zero_source =
      (Ok \<lparr>Width = 3, Height = 2, Pixels = [0]\<rparr>, zero_source\<lparr>reads := 4, taken := 4\<rparr>)"
    by (simp add: GenerateSymmetric_def zero_source_def make_bytes_def go_div_def go_mod_def
        maxAlloc_def signed_divide_int_def signed_modulo_int_def rand_Read_def SetPixel_def
        index_def fill_rows.simps fill_row.simps Let_def word_sle_eq word_sless_alt)
  have r: "GenerateAvatar 3 2 zero_source =
      (Ok \<lparr>Width = 3, Height = 2, Pixels = [0]\<rparr>, zero_source\<lparr>reads := 1, taken := 1\<rparr>)"
    by (simp add: GenerateAvatar_def zero_source_def make_bytes_def go_div_def maxAlloc_def
        signed_divide_int_def rand_Read_def Let_def word_sle_eq word_sless_alt)
  show ?thesis
    using GenerateKeyAvatar_dispatch [of "''user123''" 3 2 "''symmetric''" zero_source]
      GenerateKeyAvatar_dispatch [of "''user123''" 3 2 "''none''" zero_source] s r
    by simp
qed


section \<open>The mirrored fill within the range of the machine integers\<close>

lemma sint_mirror:
  fixes w x :: go_int
  assumes "0 \<le> sint x" "sint x < sint w"
  shows "sint (w - 1 - x) = sint w - 1 - sint x"
proof -
  have w: "sint w < 2 ^ 63" using sint_lt [of w] by simp
  have "signed_take_bit 63 (sint w - 1) = sint w - 1"
    using assms w by (intro signed_take_bit_int_eq_self) linarith+
  then have 1: "sint (w - 1) = sint w - 1" by (simp add: sint_word_ariths)
  have "signed_take_bit 63 (sint w - 1 - sint x) = sint w - 1 - sint x"
    using assms w by (intro signed_take_bit_int_eq_self) linarith+
  with 1 show ?thesis by (simp add: sint_word_ariths)
qed

lemma fill_row_failing:
  assumes "x <s hw" "failing e (reads e)"
  shows "fill_row w hw y x a e = (Error RandomSourceError, e\<lparr>reads := Suc (reads e)\<rparr>)"
  using assms by (subst fill_row.simps) (simp add: rand_Read_def)

lemma fill_row_step:
  assumes s: "sized a" and w: "Width a = w" and y: "0 \<le>s y" "y <s Height a"
    and x: "0 \<le>s x" "x <s hw" and hw: "sint hw = (sint w + 1) div 2"
    and nf: "\<not> failing e (reads e)"
  obtains a1 where
    "fill_row w hw y x a e =
       fill_row w hw y (x + 1) a1 (e\<lparr>reads := Suc (reads e), taken := Suc (taken e)\<rparr>)"
    "sized a1" "Width a1 = w" "Height a1 = Height a"
    "\<And>c r. in_bounds a c r \<Longrightarrow>
       GetPixel a1 c r =
         (if r = y \<and> source_column w c = sint x then Some (stream e (taken e) AND 1 = 1)
          else GetPixel a c r)"
proof -
  let ?W = "sint w"
  let ?v = "stream e (taken e) AND 1 = 1"
  let ?e1 = "e\<lparr>reads := Suc (reads e), taken := Suc (taken e)\<rparr>"
  let ?mx = "w - 1 - x"
  from x hw have x0: "0 \<le> sint x" and xh: "sint x < (?W + 1) div 2"
    by (simp_all add: word_sle_eq word_sless_alt)
  then have xw: "sint x < ?W" and xm: "sint x \<le> ?W - 1 - sint x" by linarith+
  have smx: "sint ?mx = ?W - 1 - sint x" using x0 xw by (rule sint_mirror)
  have bx: "in_bounds a x y"
    using x0 xw y w by (simp add: in_bounds_def word_sle_eq word_sless_alt)
  have bm: "in_bounds a ?mx y"
    using x0 xw xm smx y w by (simp add: in_bounds_def word_sle_eq word_sless_alt)
  obtain a1 where a1: "SetPixel a x y ?v = Some a1"
    using SetPixel_in_bounds [OF s bx] by simp
  note p1 = SetPixel_sized [OF a1]
  have g1: "GetPixel a1 c r = (if c = x \<and> r = y then Some ?v else GetPixel a c r)"
    if "in_bounds a c r" for c r
    using SetPixel_GetPixel [OF s bx that a1] .
  have s1: "sized a1" using p1(4) s by simp
  have bm1: "in_bounds a1 ?mx y" using p1(5) bm by simp
  obtain a2 where a2: "SetPixel a1 ?mx y ?v = Some a2"
    using SetPixel_in_bounds [OF s1 bm1] by simp
  note p2 = SetPixel_sized [OF a2]
  have g2: "GetPixel a2 c r = (if c = ?mx \<and> r = y then Some ?v else GetPixel a1 c r)"
    if "in_bounds a c r" for c r
    using SetPixel_GetPixel [OF s1 bm1 _ a2, of c r] that p1(5) by simp
  have col: "(c = x \<or> c = ?mx) \<longleftrightarrow> source_column w c = sint x" for c
  proof
    assume "c = x \<or> c = ?mx"
    then show "source_column w c = sint x"
      using xm smx by (auto simp add: source_column_def)
  next
    assume "source_column w c = sint x"
    then have "sint c = sint x \<or> sint c = sint ?mx"
      using smx by (auto simp add: source_column_def min_def split: if_splits)
    then show "c = x \<or> c = ?mx" by (auto intro: signed_word_eqI)
  qed
  let ?a = "if ?mx \<noteq> x then a2 else a1"
  have unf: "fill_row w hw y x a e = fill_row w hw y (x + 1) ?a ?e1"
    using x(2) nf a1 a2 by (subst fill_row.simps) (simp add: rand_Read_def Let_def)
  have gg: "GetPixel ?a c r =
      (if r = y \<and> source_column w c = sint x then Some ?v else GetPixel a c r)"
    if b: "in_bounds a c r" for c r
    using g1 [OF b] g2 [OF b] col [of c] by auto
  have ss: "sized ?a" and ww: "Width ?a = w" and hh: "Height ?a = Height a"
    using p1 p2 s w by auto
  show thesis by (rule that [OF unf ss ww hh gg])
qed

lemma source_column_range:
  assumes "in_bounds a c r"
  shows "0 \<le> source_column (Width a) c"
    and "source_column (Width a) c < (sint (Width a) + 1) div 2"
  using assms
  by (auto simp add: in_bounds_def source_column_def word_sle_eq word_sless_alt min_def)

lemma in_bounds_cong:
  assumes "Width a' = Width a" "Height a' = Height a"
  shows "in_bounds a' c r = in_bounds a c r"
  using assms by (simp add: in_bounds_def)

lemma fill_row_Ok_aux:
  assumes "n = nat (sint hw - sint x)"
    and "fill_row w hw y x a e = (Ok a', e')"
    and "sized a" "Width a = w" "0 \<le>s y" "y <s Height a"
    and "0 \<le>s x" "sint x \<le> sint hw" "sint hw = (sint w + 1) div 2"
  shows "row_filled w hw y x a e a' e'"
  using assms
proof (induction n arbitrary: x a e)
  case 0
  then have eq: "sint x = sint hw" by simp
  then have "\<not> x <s hw" by (simp add: word_sless_alt)
  with "0.prems"(2) have "a' = a" "e' = e"
    by (simp_all add: fill_row.simps)
  moreover have "\<not> sint x \<le> source_column w c" if "in_bounds a c r" for c r
    using source_column_range(2) [OF that] eq "0.prems"(4,9) by simp
  ultimately show ?case
    using "0.prems"(3,4) eq by (simp add: row_filled_def)
next
  case (Suc n)
  let ?e1 = "e\<lparr>reads := Suc (reads e), taken := Suc (taken e)\<rparr>"
  from Suc.prems(1) have lt: "x <s hw" by (simp add: word_sless_alt)
  have nf: "\<not> failing e (reads e)"
    using fill_row_failing [OF lt, of e w y a] Suc.prems(2) by auto
  obtain a1 where step: "fill_row w hw y x a e = fill_row w hw y (x + 1) a1 ?e1"
    and a1: "sized a1" "Width a1 = w" "Height a1 = Height a"
    and g1: "\<And>c r. in_bounds a c r \<Longrightarrow> GetPixel a1 c r =
         (if r = y \<and> source_column w c = sint x then Some (stream e (taken e) AND 1 = 1)
          else GetPixel a c r)"
    using fill_row_step [OF Suc.prems(3,4,5,6,7) lt Suc.prems(9) nf] by blast
  have sx: "sint (x + 1) = sint x + 1" using lt by (rule sint_succ_less)
  have x0: "0 \<le> sint x" using Suc.prems(7) by (simp add: word_sle_eq)
  have "row_filled w hw y (x + 1) a1 ?e1 a' e'"
  proof (rule Suc.IH)
    show "n = nat (sint hw - sint (x + 1))" using Suc.prems(1) sx by simp
    show "fill_row w hw y (x + 1) a1 ?e1 = (Ok a', e')" using step Suc.prems(2) by simp
    show "0 \<le>s x + 1" using sx x0 by (simp add: word_sle_eq)
    show "sint (x + 1) \<le> sint hw" using sx lt by (simp add: word_sless_alt)
    show "y <s Height a1" using a1(3) Suc.prems(6) by simp
  qed (use a1 Suc.prems in simp_all)
  then have r: "sized a'" "Width a' = w" "Height a' = Height a1"
    "stream e' = stream e" "failing e' = failing e"
    "int (reads e') = int (reads e) + 1 + (sint hw - (sint x + 1))"
    "int (taken e') = int (taken e) + 1 + (sint hw - (sint x + 1))"
    and g': "\<And>c r. in_bounds a1 c r \<Longrightarrow> GetPixel a' c r =
          (if r = y \<and> sint x + 1 \<le> source_column w c
           then Some (stream e (Suc (taken e) + nat (source_column w c - (sint x + 1))) AND 1 = 1)
           else GetPixel a1 c r)"
    by (simp_all add: row_filled_def sx)
  have "GetPixel a' c r =
          (if r = y \<and> sint x \<le> source_column w c
           then Some (stream e (taken e + nat (source_column w c - sint x)) AND 1 = 1)
           else GetPixel a c r)" if b: "in_bounds a c r" for c r
  proof -
    have b1: "in_bounds a1 c r"
      using b in_bounds_cong [of a1 a] a1(2,3) Suc.prems(4) by simp
    have "stream e (Suc (taken e + nat (source_column w c - (sint x + 1)))) =
        stream e (taken e + nat (source_column w c - sint x))"
      if "sint x + 1 \<le> source_column w c"
    proof -
      have "Suc (taken e + nat (source_column w c - (sint x + 1))) =
          taken e + nat (source_column w c - sint x)"
        using that by linarith
      then show ?thesis by (simp only:)
    qed
    then show ?thesis
      using g' [OF b1] g1 [OF b] by auto
  qed
  then show ?case
    using r a1(3) by (simp add: row_filled_def)
qed

lemma fill_rows_unfold:
  assumes "y <s h" "fill_rows w h hw y a e = (Ok a', e')"
  obtains a1 e1 where "fill_row w hw y 0 a e = (Ok a1, e1)"
    "fill_rows w h hw (y + 1) a1 e1 = (Ok a', e')"
proof -
  obtain res e1 where fr: "fill_row w hw y 0 a e = (res, e1)" by (cases "fill_row w hw y 0 a e")
  from assms fr obtain a1 where "res = Ok a1" "fill_rows w h hw (y + 1) a1 e1 = (Ok a', e')"
    by (subst (asm) fill_rows.simps) (cases res; simp)
  with fr that show thesis by simp
qed

lemma fill_rows_Ok_aux:
  assumes "n = nat (sint h - sint y)"
    and "fill_rows w h hw y a e = (Ok a', e')"
    and "sized a" "Width a = w" "Height a = h"
    and "0 \<le>s y" "sint y \<le> sint h" "sint hw = (sint w + 1) div 2" "0 < sint w"
  shows "rows_filled w h hw y a e a' e'"
  using assms
proof (induction n arbitrary: y a e)
  case 0
  then have eq: "sint y = sint h" by simp
  then have "\<not> y <s h" by (simp add: word_sless_alt)
  with "0.prems"(2) have "a' = a" "e' = e"
    by (simp_all add: fill_rows.simps)
  moreover have "\<not> sint y \<le> sint r" if "in_bounds a c r" for c r
    using that eq "0.prems"(5) by (simp add: in_bounds_def word_sless_alt)
  ultimately show ?case
    using "0.prems"(3,4,5) eq by (simp add: rows_filled_def)
next
  case (Suc n)
  from Suc.prems(1) have lt: "y <s h" by (simp add: word_sless_alt)
  obtain a1 e1 where row: "fill_row w hw y 0 a e = (Ok a1, e1)"
    and rest: "fill_rows w h hw (y + 1) a1 e1 = (Ok a', e')"
    using fill_rows_unfold [OF lt Suc.prems(2)] by blast
  have hw0: "0 < sint hw" using Suc.prems(8,9) by linarith
  have "row_filled w hw y 0 a e a1 e1"
    using row Suc.prems(3,4,5,6) lt hw0 Suc.prems(8)
    by (intro fill_row_Ok_aux [where n = "nat (sint hw)"]) (simp_all add: word_sle_eq)
  then have r1: "sized a1" "Width a1 = w" "Height a1 = h"
    "stream e1 = stream e" "failing e1 = failing e"
    "int (reads e1) = int (reads e) + sint hw"
    "int (taken e1) = int (taken e) + sint hw"
    and g1: "\<And>c r. in_bounds a c r \<Longrightarrow> GetPixel a1 c r =
          (if r = y \<and> 0 \<le> source_column w c
           then Some (stream e (taken e + nat (source_column w c)) AND 1 = 1)
           else GetPixel a c r)"
    using Suc.prems(5) by (simp_all add: row_filled_def)
  have sy: "sint (y + 1) = sint y + 1" using lt by (rule sint_succ_less)
  have y0: "0 \<le> sint y" using Suc.prems(6) by (simp add: word_sle_eq)
  have "rows_filled w h hw (y + 1) a1 e1 a' e'"
  proof (rule Suc.IH)
    show "n = nat (sint h - sint (y + 1))" using Suc.prems(1) sy by simp
    show "0 \<le>s y + 1" using sy y0 by (simp add: word_sle_eq)
    show "sint (y + 1) \<le> sint h" using sy lt by (simp add: word_sless_alt)
  qed (use rest r1 Suc.prems in simp_all)
  then have r: "sized a'" "Width a' = w" "Height a' = h"
    "stream e' = stream e" "failing e' = failing e"
    "int (reads e') = int (reads e) + sint hw + (sint h - (sint y + 1)) * sint hw"
    "int (taken e') = int (taken e) + sint hw + (sint h - (sint y + 1)) * sint hw"
    and g': "\<And>c r. in_bounds a1 c r \<Longrightarrow> GetPixel a' c r =
          (if sint y + 1 \<le> sint r
           then Some (stream e (taken e1 +
                   nat ((sint r - (sint y + 1)) * sint hw + source_column w c)) AND 1 = 1)
           else GetPixel a1 c r)"
    using r1 by (simp_all add: rows_filled_def sy)
  have cnt: "sint hw + (sint h - (sint y + 1)) * sint hw = (sint h - sint y) * sint hw"
    by (simp add: algebra_simps)
  have "GetPixel a' c r =
          (if sint y \<le> sint r
           then Some (stream e (taken e +
                   nat ((sint r - sint y) * sint hw + source_column w c)) AND 1 = 1)
           else GetPixel a c r)" if b: "in_bounds a c r" for c r
  proof -
    have b1: "in_bounds a1 c r"
      using b in_bounds_cong [of a1 a] r1(2,3) Suc.prems(4,5) by simp
    have sc: "0 \<le> source_column w c"
      using source_column_range(1) [OF b] Suc.prems(4) by simp
    show ?thesis
    proof (cases "sint y + 1 \<le> sint r")
      case True
      then have n1: "0 \<le> (sint r - (sint y + 1)) * sint hw"
        and n2: "0 \<le> (sint r - sint y) * sint hw"
        using hw0 by simp_all
      have "int (taken e1) + ((sint r - (sint y + 1)) * sint hw + source_column w c) =
          int (taken e) + ((sint r - sint y) * sint hw + source_column w c)"
        using r1(7) by (simp add: algebra_simps)
      moreover have "0 \<le> (sint r - (sint y + 1)) * sint hw + source_column w c"
        and "0 \<le> (sint r - sint y) * sint hw + source_column w c"
        using n1 n2 sc by linarith+
      ultimately have "taken e1 + nat ((sint r - (sint y + 1)) * sint hw + source_column w c) =
          taken e + nat ((sint r - sint y) * sint hw + source_column w c)"
        by linarith
      then show ?thesis using g' [OF b1] True by simp
    next
      case False
      show ?thesis
      proof (cases "r = y")
        case True
        then show ?thesis using g' [OF b1] g1 [OF b] sc by simp
      next
        case ne: False
        then have "sint r \<noteq> sint y" by (auto intro: signed_word_eqI)
        with False have "\<not> sint y \<le> sint r" by simp
        then show ?thesis using g' [OF b1] g1 [OF b] False ne by simp
      qed
    qed
  qed
  then show ?case
    using r cnt by (simp add: rows_filled_def)
qed

lemma sint_buffer_length:
  fixes w h :: go_int
  assumes "0 < sint w" "0 < sint h" "sint w * sint h + 7 < 2 ^ 63"
  shows "sint (go_div (w * h + 7) 8) = (sint w * sint h + 7) div 8"
proof -
  have p: "0 \<le> sint w * sint h" using assms by simp
  have "sint w * 1 \<le> sint w * sint h" using assms by (intro mult_left_mono) auto
  have "sint (w * h + 7) = sint w * sint h + sint (7 :: go_int)"
    using assms p by (intro sint_row_major) auto
  then have "sint (w * h + 7) = sint w * sint h + 7" by simp
  moreover from this have "0 \<le> sint (w * h + 7)" using p by simp
  ultimately show ?thesis by (simp add: sint_go_div)
qed

lemma sint_half_width:
  fixes w :: go_int
  assumes "0 < sint w" "sint w + 1 < 2 ^ 63"
  shows "sint (go_div (w + 1) 2) = (sint w + 1) div 2"
proof -
  have "signed_take_bit 63 (sint w + 1) = sint w + 1"
    using assms by (intro signed_take_bit_int_eq_self) linarith+
  then have 1: "sint (w + 1) = sint w + 1" by (simp add: sint_word_ariths)
  then have "sint (w + 1) sdiv 2 = (sint w + 1) div 2"
    using assms by (simp add: signed_divide_int_def sgn_if)
  moreover have "sint (word_of_int ((sint w + 1) div 2) :: go_int) = (sint w + 1) div 2"
    using assms by (intro sint_in_range) linarith+
  ultimately show ?thesis using 1 by (simp add: go_div_def)
qed

lemma make_bytes_Some:
  assumes "make_bytes n = Some buf"
  shows "int (length buf) = sint n" "int (length buf) \<le> maxAlloc" "buf = replicate (nat (sint n)) 0"
  using assms by (auto simp add: make_bytes_def word_sless_alt split: if_splits)

lemma GenerateAvatar_Ok:
  assumes ok: "GenerateAvatar w h e = (Ok a, e')" and fit: "sint w * sint h + 7 < 2 ^ 63"
  shows "sized a" "Width a = w" "Height a = h"
proof -
  from ok have pos: "0 < sint w" "0 < sint h"
    by (auto simp add: GenerateAvatar_def word_sle_eq split: if_splits)
  from ok pos obtain buf where mk: "make_bytes (go_div (w * h + 7) 8) = Some buf"
    by (auto simp add: GenerateAvatar_def word_sle_eq Let_def split: option.splits)
  from ok pos mk have a: "Width a = w" "Height a = h" "length (Pixels a) = length buf"
    by (auto simp add: GenerateAvatar_def word_sle_eq Let_def rand_Read_def split: if_splits)
  show "Width a = w" "Height a = h" by fact+
  show "sized a"
    using make_bytes_Some(1,2) [OF mk] sint_buffer_length [OF pos fit] a
    by (simp add: sized_def)
qed

lemma GenerateSymmetric_Ok:
  assumes ok: "GenerateSymmetric w h e = (Ok a, e')" and fit: "sint w * sint h + 7 < 2 ^ 63"
  shows "rows_filled w h (go_div (w + 1) 2) 0
           \<lparr>Width = w, Height = h, Pixels = replicate (nat ((sint w * sint h + 7) div 8)) 0\<rparr> e a e'"
    and "sint (go_div (w + 1) 2) = (sint w + 1) div 2"
proof -
  let ?hw = "go_div (w + 1) 2"
  from ok have pos: "0 < sint w" "0 < sint h"
    by (auto simp add: GenerateSymmetric_def word_sle_eq split: if_splits)
  from ok pos obtain buf where mk: "make_bytes (go_div (w * h + 7) 8) = Some buf"
    by (auto simp add: GenerateSymmetric_def word_sle_eq split: option.splits)
  let ?a0 = "\<lparr>Width = w, Height = h, Pixels = buf\<rparr>"
  from ok pos mk have fr: "fill_rows w h ?hw 0 ?a0 e = (Ok a, e')"
    by (simp add: GenerateSymmetric_def word_sle_eq Let_def)
  note len = sint_buffer_length [OF pos fit]
  have s0: "sized ?a0"
    using make_bytes_Some(1,2) [OF mk] len by (simp add: sized_def)
  have "sint w * 1 \<le> sint w * sint h" using pos by (intro mult_left_mono) auto
  then have "sint w + 1 < 2 ^ 63" using fit by simp
  then show hw: "sint ?hw = (sint w + 1) div 2" using pos(1) by (intro sint_half_width)
  have "buf = replicate (nat ((sint w * sint h + 7) div 8)) 0"
    using make_bytes_Some(3) [OF mk] len by simp
  moreover have "rows_filled w h ?hw 0 ?a0 e a e'"
    using fr s0 hw pos
    by (intro fill_rows_Ok_aux [where n = "nat (sint h)"]) (simp_all add: word_sle_eq)
  ultimately show "rows_filled w h ?hw 0
           \<lparr>Width = w, Height = h, Pixels = replicate (nat ((sint w * sint h + 7) div 8)) 0\<rparr> e a e'"
    by simp
qed

lemma GenerateSymmetric_pixels:
  assumes ok: "GenerateSymmetric w h e = (Ok a, e')" and fit: "sint w * sint h + 7 < 2 ^ 63"
  shows "sized a" "Width a = w" "Height a = h"
    and "stream e' = stream e" "failing e' = failing e"
    and "int (reads e') = int (reads e) + sint h * ((sint w + 1) div 2)"
    and "int (taken e') = int (taken e) + sint h * ((sint w + 1) div 2)"
    and "\<And>c r. in_bounds a c r \<Longrightarrow>
          GetPixel a c r = Some (stream e (taken e +
            nat (sint r * ((sint w + 1) div 2) + source_column w c)) AND 1 = 1)"
proof -
  note r = GenerateSymmetric_Ok [OF ok fit]
  from r show "sized a" and w: "Width a = w" and h: "Height a = h"
    and "stream e' = stream e" "failing e' = failing e"
    and "int (reads e') = int (reads e) + sint h * ((sint w + 1) div 2)"
    and "int (taken e') = int (taken e) + sint h * ((sint w + 1) div 2)"
    by (simp_all add: rows_filled_def)
  fix c r assume b: "in_bounds a c r"
  then have "in_bounds \<lparr>Width = w, Height = h,
      Pixels = replicate (nat ((sint w * sint h + 7) div 8)) 0\<rparr> c r"
    using w h by (simp add: in_bounds_def)
  moreover have "0 \<le> sint r" using b by (simp add: in_bounds_def word_sle_eq)
  ultimately show "GetPixel a c r = Some (stream e (taken e +
            nat (sint r * ((sint w + 1) div 2) + source_column w c)) AND 1 = 1)"
    using r by (simp add: rows_filled_def)
qed

lemma source_column_mirror:
  assumes "0 \<le> sint c" "sint c < sint w"
  shows "source_column w (w - 1 - c) = source_column w c"
  using assms sint_mirror [of c w] by (simp add: source_column_def min_def)

lemma GenerateSymmetric_mirror:
  assumes ok: "GenerateSymmetric w h e = (Ok a, e')" and fit: "sint w * sint h + 7 < 2 ^ 63"
    and b: "in_bounds a x y"
  shows "\<exists>v. GetPixel a x y = Some v \<and> GetPixel a (w - 1 - x) y = Some v"
proof -
  note r = GenerateSymmetric_pixels [OF ok fit]
  from b r(2) have x: "0 \<le> sint x" "sint x < sint w"
    by (simp_all add: in_bounds_def word_sle_eq word_sless_alt)
  then have "in_bounds a (w - 1 - x) y"
    using b r(2) sint_mirror [OF x] by (simp add: in_bounds_def word_sle_eq word_sless_alt)
  then show ?thesis
    using r(8) [OF b] r(8) [of "w - 1 - x" y] source_column_mirror [OF x] by simp
qed

text \<open>The lemmas at work on a grid of three columns and two rows.\<close>

lemma GenerateSymmetric_3x2:
  "\<exists>a e'. GenerateSymmetric 3 2 zero_source = (Ok a, e') \<and> reads e' = 4 \<and> sized a \<and>
     (\<exists>v. GetPixel a 0 1 = Some v \<and> GetPixel a 2 1 = Some v)"
proof -
  obtain a e' where ok: "GenerateSymmetric 3 2 zero_source = (Ok a, e')"
    by (simp add: GenerateSymmetric_def zero_source_def make_bytes_def go_div_def go_mod_def
        maxAlloc_def signed_divide_int_def signed_modulo_int_def rand_Read_def SetPixel_def
        index_def fill_rows.simps fill_row.simps Let_def word_sle_eq word_sless_alt)
  have fit: "sint (3 :: go_int) * sint (2 :: go_int) + 7 < 2 ^ 63" by simp
  note p = GenerateSymmetric_pixels [OF ok fit]
  have b: "in_bounds a 0 1"
    using p(2,3) by (simp add: in_bounds_def word_sle_eq word_sless_alt)
  have "reads e' = 4" using p(6) by (simp add: zero_source_def)
  moreover have "\<exists>v. GetPixel a 0 1 = Some v \<and> GetPixel a (3 - 1 - 0) 1 = Some v"
    by (rule GenerateSymmetric_mirror [OF ok fit b])
  ultimately show ?thesis using ok p(1) by simp
qed

section \<open>Dimensions whose arithmetic wraps around\<close>

text \<open>
  The lemmas above assume that \<open>width * height + 7\<close> fits a Go \<^verbatim>\<open>int\<close>.  The code does
  not check this, and for larger dimensions the products and sums of \<open>GenerateAvatar\<close> and
  \<open>GenerateSymmetric\<close> wrap around.  The three theorems of this section evaluate the code
  at such dimensions.
\<close>

text \<open>
  C4.  The specification gives every avatar returned by \<open>GenerateAvatar\<close> or
  \<open>GenerateSymmetric\<close> for positive dimensions a buffer of \<open>\<lceil>width * height / 8\<rceil>\<close> bytes,
  which the accessors keep.  For the width and height \<open>2^32\<close> the product wraps to zero:
  \<open>GenerateAvatar\<close> returns an avatar of these dimensions with an empty buffer, where
  \<open>2^61\<close> bytes are specified.  (Where \<open>width * height + 7\<close> does not wrap, the length is
  right by \<open>GenerateAvatar_Ok\<close> and \<open>GenerateSymmetric_pixels\<close>, and \<open>SetPixel\<close> keeps the
  length in every case by \<open>SetPixel_sized\<close>.)
\<close>

theorem GenerateAvatar_wrapped_length:
  "fst (GenerateAvatar 4294967296 4294967296 zero_source) =
     Ok \<lparr>Width = 4294967296, Height = 4294967296, Pixels = []\<rparr> \<and>
   \<not> sized \<lparr>Width = 4294967296, Height = 4294967296, Pixels = []\<rparr>"
  by (simp add: GenerateAvatar_def zero_source_def make_bytes_def go_div_def maxAlloc_def
      signed_divide_int_def rand_Read_def Let_def word_sle_eq word_sless_alt sized_def)

text \<open>
  C1.  The specification makes every row of a grid returned by \<open>GenerateSymmetric\<close> for
  positive dimensions a palindrome: \<open>GetPixel\<close> gives the same at \<open>(x, y)\<close> and at
  \<open>(width - 1 - x, y)\<close>.  For the largest width and the height 2, \<open>width * height\<close> wraps
  to \<open>-2\<close>, so the buffer is empty, and \<open>width + 1\<close> wraps to a negative number, so the
  inner loop never runs: the call returns an avatar on which \<open>GetPixel\<close> panics at the
  in-bounds pixel \<open>(0, 0)\<close> and at its mirror.  (Where \<open>width * height + 7\<close> does not wrap,
  the rows are palindromes by \<open>GenerateSymmetric_mirror\<close>.)
\<close>

theorem GenerateSymmetric_max_width_panics:
  "fst (GenerateSymmetric MaxInt64 2 e) = Ok \<lparr>Width = MaxInt64, Height = 2, Pixels = []\<rparr> \<and>
   in_bounds \<lparr>Width = MaxInt64, Height = 2, Pixels = []\<rparr> 0 0 \<and>
   GetPixel \<lparr>Width = MaxInt64, Height = 2, Pixels = []\<rparr> 0 0 = None \<and>
   GetPixel \<lparr>Width = MaxInt64, Height = 2, Pixels = []\<rparr> (MaxInt64 - 1 - 0) 0 = None"
  by (simp add: GenerateSymmetric_def MaxInt64_def make_bytes_def go_div_def go_mod_def
      maxAlloc_def signed_divide_int_def signed_modulo_int_def fill_rows.simps fill_row.simps
      Let_def word_sle_eq word_sless_alt in_bounds_def GetPixel_def index_def)

text \<open>
  C6.  The specification has a successful mirrored fill read the entropy source once per
  left-half pixel, \<open>height * \<lceil>width / 2\<rceil>\<close> times, the centre column of an odd width
  included.  For the largest width and the height 2 the call succeeds and leaves the source
  as it found it: it has made no read, where \<open>2^63\<close> are specified.  (Where
  \<open>width * height + 7\<close> does not wrap, the reads are counted and every pixel is traced to
  its read by \<open>GenerateSymmetric_pixels\<close>.)
\<close>

theorem GenerateSymmetric_max_width_reads_nothing:
  "GenerateSymmetric MaxInt64 2 e = (Ok \<lparr>Width = MaxInt64, Height = 2, Pixels = []\<rparr>, e) \<and>
   sint (2 :: go_int) * ((sint MaxInt64 + 1) div 2) = 2 ^ 63"
  by (simp add: GenerateSymmetric_def MaxInt64_def make_bytes_def go_div_def
      maxAlloc_def signed_divide_int_def fill_rows.simps fill_row.simps
      Let_def word_sle_eq word_sless_alt)


section \<open>The path of an avatar file\<close>

lemma takeWhile_before_separator:
  "takeWhile (\<lambda>d. d \<noteq> Separator) (xs @ Separator # ys) = takeWhile (\<lambda>d. d \<noteq> Separator) xs"
  by (induction xs) auto

lemma dropWhile_before_separator:
  "dropWhile (\<lambda>d. d \<noteq> Separator) (xs @ Separator # ys) =
     dropWhile (\<lambda>d. d \<noteq> Separator) xs @ Separator # ys"
  by (induction xs) auto

lemma Clean_loop_plain_name:
  assumes "plain_name name"
  shows "Clean_loop rooted dotdot out name = add_separator rooted out @ name"
proof -
  from assms obtain c r where n: "name = c # r" by (cases name) (auto simp add: plain_name_def)
  have all: "\<forall>d\<in>set name. d \<noteq> Separator" using assms by (auto simp add: plain_name_def)
  have c: "c \<noteq> Separator" using all n by simp
  have dot: "\<not> (c = CHR ''.'' \<and> (r = [] \<or> hd r = Separator))"
    using assms n by (cases r) (auto simp add: plain_name_def)
  have dotdot: "\<not> (c = CHR ''.'' \<and> hd r = CHR ''.'' \<and> (tl r = [] \<or> hd (tl r) = Separator))"
  proof (cases r)
    case Nil
    with dot show ?thesis by simp
  next
    case (Cons d r')
    with assms n show ?thesis by (cases r') (auto simp add: plain_name_def)
  qed
  have tw: "takeWhile (\<lambda>d. d \<noteq> Separator) (c # r) = c # r"
    and dw: "dropWhile (\<lambda>d. d \<noteq> Separator) (c # r) = []"
    using all n by simp_all
  have "Clean_loop rooted dotdot out (c # r) =
      Clean_loop rooted dotdot (add_separator rooted out @ c # r) []"
    by (simp only: Clean_loop.simps(2) c dot dotdot if_False tw dw)
  then show ?thesis using n by simp
qed

lemma Clean_loop_append_name:
  assumes "plain_name name"
  shows "Clean_loop rooted dotdot out (p @ Separator # name) =
           add_separator rooted (Clean_loop rooted dotdot out p) @ name"
proof (induction rooted dotdot out p rule: Clean_loop.induct)
  case (1 rooted dotdot out)
  show ?case using Clean_loop_plain_name [OF assms] by simp
next
  case (2 rooted dotdot out c r)
  let ?s = "Separator # name"
  show ?case
  proof (cases "c = Separator")
    case True
    with 2 show ?thesis by simp
  next
    case sep: False
    show ?thesis
    proof (cases "c = CHR ''.'' \<and> (r = [] \<or> hd r = Separator)")
      case True
      then have "c = CHR ''.'' \<and> (r @ ?s = [] \<or> hd (r @ ?s) = Separator)"
        by (cases r) auto
      with True sep 2 show ?thesis by simp
    next
      case dot: False
      have dot': "\<not> (c = CHR ''.'' \<and> (r @ ?s = [] \<or> hd (r @ ?s) = Separator))"
        using dot by (cases r) auto
      show ?thesis
      proof (cases "c = CHR ''.'' \<and> hd r = CHR ''.'' \<and> (tl r = [] \<or> hd (tl r) = Separator)")
        case True
        with dot have r: "r \<noteq> []" by auto
        have t: "tl (r @ ?s) = tl r @ ?s" "hd (r @ ?s) = hd r" using r by simp_all
        have dd': "c = CHR ''.'' \<and> hd (r @ ?s) = CHR ''.'' \<and>
            (tl (r @ ?s) = [] \<or> hd (tl (r @ ?s)) = Separator)"
          using True t by (cases "tl r") auto
        show ?thesis
          using sep dot dot' True dd' t 2(3,4,5)
          by (simp del: hd_append tl_append2)
      next
        case False
        have dd': "\<not> (c = CHR ''.'' \<and> hd (r @ ?s) = CHR ''.'' \<and>
            (tl (r @ ?s) = [] \<or> hd (tl (r @ ?s)) = Separator))"
        proof (cases r)
          case Nil
          with dot show ?thesis by simp
        next
          case (Cons d r')
          with False show ?thesis by (cases r') auto
        qed
        have tw: "takeWhile (\<lambda>d. d \<noteq> Separator) (c # r @ ?s) =
            takeWhile (\<lambda>d. d \<noteq> Separator) (c # r)"
          and dw: "dropWhile (\<lambda>d. d \<noteq> Separator) (c # r @ ?s) =
            dropWhile (\<lambda>d. d \<noteq> Separator) (c # r) @ ?s"
          using takeWhile_before_separator [of "c # r" name]
            dropWhile_before_separator [of "c # r" name] by simp_all
        have "Clean_loop rooted dotdot out ((c # r) @ ?s) =
            Clean_loop rooted dotdot
              (add_separator rooted out @ takeWhile (\<lambda>d. d \<noteq> Separator) (c # r))
              (dropWhile (\<lambda>d. d \<noteq> Separator) (c # r) @ ?s)"
          by (simp only: append_Cons Clean_loop.simps(2) sep dot' dd' if_False tw dw)
        also have "\<dots> = add_separator rooted (Clean_loop rooted dotdot
              (add_separator rooted out @ takeWhile (\<lambda>d. d \<noteq> Separator) (c # r))
              (dropWhile (\<lambda>d. d \<noteq> Separator) (c # r))) @ name"
          using 2(6) [OF sep dot False] by simp
        also have "\<dots> = add_separator rooted (Clean_loop rooted dotdot out (c # r)) @ name"
          by (simp only: Clean_loop.simps(2) sep dot False if_False)
        finally show ?thesis .
      qed
    qed
  qed
qed

lemma png_plain_name:
  assumes "Separator \<notin> set key"
  shows "plain_name (key @ ''.png'')"
proof -
  have "length (key @ ''.png'') \<noteq> length xs" if "length xs < 4" for xs :: string
    using that by simp
  from this [of "''.''"] this [of "''..''"]
  have "key @ ''.png'' \<noteq> ''.''" "key @ ''.png'' \<noteq> ''..''"
    by fastforce+
  then show ?thesis using assms by (simp add: plain_name_def Separator_def)
qed

text \<open>
  C8.  The specification has \<open>GetAvatarPath folder key\<close> return the folder, one separator,
  the key and the suffix \<^verbatim>\<open>.png\<close>, for every folder and key.  The function is total and
  reads no state, but \<^verbatim>\<open>filepath.Join\<close> cleans what it joins: for the folder
  \<^verbatim>\<open>./avatars\<close> of the README the result is \<^verbatim>\<open>avatars/user123.png\<close>, without the leading
  \<^verbatim>\<open>./\<close>, and for the empty folder it is \<^verbatim>\<open>user123.png\<close>, without a separator.
\<close>

theorem GetAvatarPath_not_verbatim:
  "GetAvatarPath ''./avatars'' ''user123'' \<noteq> ''./avatars'' @ ''/'' @ ''user123'' @ ''.png''"
  by (simp add: GetAvatarPath_def Clean_def Separator_def add_separator_def)

lemma GetAvatarPath_empty_folder:
  "GetAvatarPath [] ''user123'' = ''user123.png''"
  by (simp add: GetAvatarPath_def Clean_def Separator_def add_separator_def)

lemma GetAvatarPath_parent_in_key:
  "GetAvatarPath ''avatars'' ''../../etc/passwd'' = ''../etc/passwd.png''"
  by (simp add: GetAvatarPath_def Clean_def Separator_def add_separator_def append_dotdot_def
      backtrack.simps)

text \<open>
  C8, as amended.  \<open>GetAvatarPath folder key\<close> is the cleaned join of the folder and of the
  key with the suffix \<^verbatim>\<open>.png\<close>.  When the folder is already clean, is neither \<^verbatim>\<open>.\<close> nor
  the root, and the key contains no separator, this is the folder, one separator, the key
  and the suffix.
\<close>

theorem GetAvatarPath_clean_folder:
  assumes cl: "Clean folder = folder" and nd: "folder \<noteq> ''.''" and nr: "folder \<noteq> [Separator]"
    and key: "Separator \<notin> set key"
  shows "GetAvatarPath folder key = folder @ [Separator] @ key @ ''.png''"
proof -
  let ?name = "key @ ''.png''"
  note pn = png_plain_name [OF key]
  have ne: "folder \<noteq> []" using cl by (auto simp add: Clean_def)
  then obtain c f where f: "folder = c # f" by (cases folder) auto
  have j: "GetAvatarPath folder key = Clean (folder @ Separator # ?name)"
    using ne by (simp add: GetAvatarPath_def)
  show ?thesis
  proof (cases "c = Separator")
    case True
    let ?out = "Clean_loop True 1 [Separator] f"
    have o: "?out = folder"
      using cl nd f True by (auto simp add: Clean_def Let_def Separator_def split: if_splits)
    then have "length ?out \<noteq> 1" using nr f True by auto
    then have "add_separator True ?out = folder @ [Separator]"
      using o by (simp add: add_separator_def)
    then have "Clean_loop True 1 [Separator] (f @ Separator # ?name) = folder @ Separator # ?name"
      using Clean_loop_append_name [OF pn, of True 1 "[Separator]" f] by simp
    then show ?thesis using j f True by (simp add: Clean_def Let_def)
  next
    case False
    let ?out = "Clean_loop False 0 [] folder"
    have o: "?out = folder"
      using cl nd f False by (auto simp add: Clean_def Let_def Separator_def split: if_splits)
    then have "add_separator False ?out = folder @ [Separator]"
      using ne by (simp add: add_separator_def)
    then have "Clean_loop False 0 [] (folder @ Separator # ?name) = folder @ Separator # ?name"
      using Clean_loop_append_name [OF pn, of False 0 "[]" folder] by simp
    then show ?thesis using j f False by (simp add: Clean_def Let_def)
  qed
qed

theorem GetAvatarPath_clean_folder_witness:
  "Clean ''avatars'' = ''avatars'' \<and> ''avatars'' \<noteq> ''.'' \<and> ''avatars'' \<noteq> [Separator] \<and>
   Separator \<notin> set ''user123'' \<and>
   GetAvatarPath ''avatars'' ''user123'' = ''avatars/user123.png''"
proof -
  have 1: "Clean ''avatars'' = ''avatars''"
    by (simp add: Clean_def Separator_def add_separator_def)
  have 2: "''avatars'' \<noteq> ''.''" and 3: "''avatars'' \<noteq> [Separator]"
    and 4: "Separator \<notin> set ''user123''"
    by (simp_all add: Separator_def)
  show ?thesis
    using 1 2 3 4 GetAvatarPath_clean_folder [OF 1 2 3 4] by (simp add: Separator_def)
qed

end
